theory Spec2Isabelle
  imports Main "HOL-Library.Sublist"
begin

section \<open>Python strings\<close>

text \<open>
  A Python \<open>str\<close> is a finite sequence of Unicode code points. A code point is modelled
  as a natural number and a text as a list of them, so that indices and lengths count
  what Python counts. \<open>lit\<close> embeds a source literal, character by character.
\<close>

type_synonym codepoint = nat
type_synonym str = "codepoint list"

definition lit :: "string \<Rightarrow> str" where
  "lit cs = map of_char cs"

text \<open>
  \<open>s.find(sub)\<close>: the lowest index at which \<open>sub\<close> begins in \<open>s\<close>, and \<open>-1\<close> when it
  begins nowhere. The scan goes from left to right and stops at the first position where
  \<open>sub\<close> is a prefix of the rest of the text.
\<close>

fun find_str :: "'a list \<Rightarrow> 'a list \<Rightarrow> int" where
  "find_str [] sub = (if sub = [] then 0 else - 1)"
| "find_str (c # cs) sub =
     (if prefix sub (c # cs) then 0
      else (let r = find_str cs sub in if r = - 1 then - 1 else r + 1))"

text \<open>
  Slicing never raises. A bound of a slice is first normalised against the length \<open>n\<close> of
  the text: a negative bound counts from the end, and the result is clamped to \<open>0..n\<close>.
  \<open>slice_to s i\<close> is \<open>s[:i]\<close> and \<open>slice_from s i\<close> is \<open>s[i:]\<close>.
\<close>

definition slice_bound :: "nat \<Rightarrow> int \<Rightarrow> nat" where
  "slice_bound n i = (if i < 0 then nat (max 0 (int n + i)) else min (nat i) n)"

definition slice_to :: "'a list \<Rightarrow> int \<Rightarrow> 'a list" where
  "slice_to s i = take (slice_bound (length s) i) s"

definition slice_from :: "'a list \<Rightarrow> int \<Rightarrow> 'a list" where
  "slice_from s i = drop (slice_bound (length s) i) s"

section \<open>The script\<close>

text \<open>
  The script works on one file, whose path is fixed. The world it runs in is the text of
  that file as \<open>f.read()\<close> returns it, the texts handed to \<open>f.write\<close> so far (the file
  is opened for writing, and so truncated, exactly when a text is written) and the lines
  printed so far. A missing or unreadable file ends the script with an uncaught exception
  before any of this; the model starts where the text has been read.
\<close>

record world =
  file_text :: str
  writes :: "str list"
  console :: "string list"

definition start_tag :: str where
  "start_tag = lit ''<style>''"

definition end_tag :: str where
  "end_tag = lit ''</style>''"

definition link_tag :: str where
  \<open>link_tag = lit ''<link rel="stylesheet" href="css/styles.css">''\<close>

definition new_content :: "str \<Rightarrow> int \<Rightarrow> int \<Rightarrow> str" where
  "new_content content start_index end_index =
     slice_to content start_index @ link_tag
       @ slice_from content (end_index + int (length end_tag))"

definition update_styles :: "world \<Rightarrow> world" where
  "update_styles w =
     (let content = file_text w;
          start_index = find_str content start_tag;
          end_index = find_str content end_tag
      in if start_index \<noteq> - 1 \<and> end_index \<noteq> - 1 then
           w\<lparr>file_text := new_content content start_index end_index,
             writes := writes w @ [new_content content start_index end_index],
             console := console w @ [''Successfully replaced style block with link.'']\<rparr>
         else w\<lparr>console := console w @ [''Could not find style block.'']\<rparr>)"

text \<open>The world before a run on a file that holds the text \<open>content\<close>.\<close>

definition initial :: "str \<Rightarrow> world" where
  "initial content = \<lparr>file_text = content, writes = [], console = []\<rparr>"

section \<open>The file on disk\<close>

text \<open>
  The file is a sequence of bytes. Both \<open>open\<close> calls name the encoding \<open>utf-8\<close> and
  leave the error handler and the \<open>newline\<close> argument at their defaults, so reading
  decodes strictly and then turns every CR LF pair and every remaining CR into LF, and
  writing turns every LF into \<open>os.linesep\<close> and then encodes. A byte
  sequence that is not UTF-8 raises \<open>UnicodeDecodeError\<close>; a text with a surrogate raises
  \<open>UnicodeEncodeError\<close>.
\<close>

datatype error = UnicodeDecodeError | UnicodeEncodeError

text \<open>
  Strict UTF-8 decoding: one to four bytes for a code point; continuation bytes lie in
  \<open>0x80..0xBF\<close>; overlong forms, surrogates and code points above \<open>0x10FFFF\<close> are
  refused, as is a sequence cut short by the end of the file.
\<close>

definition continuation :: "char \<Rightarrow> bool" where
  "continuation b = (128 \<le> (of_char b :: nat) \<and> (of_char b :: nat) < 192)"

fun decode_utf8 :: "char list \<Rightarrow> str option" where
  "decode_utf8 [] = Some []"
| "decode_utf8 (b0 # bs) =
     (let n0 = of_char b0 :: nat in
      if n0 < 128 then map_option ((#) n0) (decode_utf8 bs)
      else if 194 \<le> n0 \<and> n0 < 224 then
        (case bs of
           b1 # rest \<Rightarrow>
             if continuation b1
             then map_option ((#) ((n0 - 192) * 64 + (of_char b1 - 128))) (decode_utf8 rest)
             else None
         | _ \<Rightarrow> None)
      else if 224 \<le> n0 \<and> n0 < 240 then
        (case bs of
           b1 # b2 # rest \<Rightarrow>
             (let cp = (n0 - 224) * 4096 + (of_char b1 - 128) * 64 + (of_char b2 - 128)
              in if continuation b1 \<and> continuation b2 \<and> 2048 \<le> cp
                    \<and> \<not> (55296 \<le> cp \<and> cp < 57344)
                 then map_option ((#) cp) (decode_utf8 rest)
                 else None)
         | _ \<Rightarrow> None)
      else if 240 \<le> n0 \<and> n0 < 245 then
        (case bs of
           b1 # b2 # b3 # rest \<Rightarrow>
             (let cp = (n0 - 240) * 262144 + (of_char b1 - 128) * 4096
                         + (of_char b2 - 128) * 64 + (of_char b3 - 128)
              in if continuation b1 \<and> continuation b2 \<and> continuation b3
                    \<and> 65536 \<le> cp \<and> cp < 1114112
                 then map_option ((#) cp) (decode_utf8 rest)
                 else None)
         | _ \<Rightarrow> None)
      else None)"

fun encode_utf8 :: "str \<Rightarrow> char list option" where
  "encode_utf8 [] = Some []"
| "encode_utf8 (c # cs) =
     (if c < 128 then map_option ((#) (char_of c)) (encode_utf8 cs)
      else if c < 2048 then
        map_option ((@) [char_of (192 + c div 64), char_of (128 + c mod 64)]) (encode_utf8 cs)
      else if c < 65536 then
        (if 55296 \<le> c \<and> c < 57344 then None
         else map_option ((@) [char_of (224 + c div 4096), char_of (128 + c div 64 mod 64),
                               char_of (128 + c mod 64)]) (encode_utf8 cs))
      else if c < 1114112 then
        map_option ((@) [char_of (240 + c div 262144), char_of (128 + c div 4096 mod 64),
                         char_of (128 + c div 64 mod 64), char_of (128 + c mod 64)])
          (encode_utf8 cs)
      else None)"

text \<open>
  \<open>read_newlines\<close> is the translation on reading. \<open>write_newlines linesep\<close> is the
  translation on writing, \<open>linesep\<close> being \<open>os.linesep\<close> of the platform: LF is
  \<open>[10]\<close>, CR LF is \<open>[13, 10]\<close>.
\<close>

fun read_newlines :: "str \<Rightarrow> str" where
  "read_newlines [] = []"
| "read_newlines [c] = [if c = 13 then 10 else c]"
| "read_newlines (c # d # cs) =
     (if c = 13 \<and> d = 10 then 10 # read_newlines cs
      else if c = 13 then 10 # read_newlines (d # cs)
      else c # read_newlines (d # cs))"

definition write_newlines :: "str \<Rightarrow> str \<Rightarrow> str" where
  "write_newlines linesep s = concat (map (\<lambda>c. if c = 10 then linesep else [c]) s)"

text \<open>\<open>read_file\<close> is \<open>f.read()\<close> on the file opened for reading, \<open>write_file\<close> is
  \<open>f.write\<close> on the file opened for writing.\<close>

definition read_file :: "char list \<Rightarrow> error + str" where
  "read_file bytes =
     (case decode_utf8 bytes of
        None \<Rightarrow> Inl UnicodeDecodeError
      | Some s \<Rightarrow> Inr (read_newlines s))"

definition write_file :: "str \<Rightarrow> str \<Rightarrow> error + char list" where
  "write_file linesep s =
     (case encode_utf8 (write_newlines linesep s) of
        None \<Rightarrow> Inl UnicodeEncodeError
      | Some bytes \<Rightarrow> Inr bytes)"

text \<open>
  The whole script on the bytes of the file: the bytes afterwards and the lines printed.
  The text-level run is \<open>update_styles\<close>; the file is opened for writing only on the
  success branch.
\<close>

definition script :: "str \<Rightarrow> char list \<Rightarrow> error + char list \<times> string list" where
  "script linesep bytes =
     (case read_file bytes of
        Inl e \<Rightarrow> Inl e
      | Inr content \<Rightarrow>
          (let w = update_styles (initial content)
           in case writes w of
                [] \<Rightarrow> Inr (bytes, console w)
              | new # _ \<Rightarrow>
                  (case write_file linesep new of
                     Inl e \<Rightarrow> Inl e
                   | Inr out \<Rightarrow> Inr (out, console w))))"

section \<open>Occurrences of a marker\<close>

text \<open>
  \<open>occurs_at sub s i\<close>: the text \<open>sub\<close> begins at index \<open>i\<close> of \<open>s\<close>.
  \<open>first_occurrence sub s i\<close>: it begins there and at no lower index.
  \<open>occurrences sub s\<close>: every index where it begins, in increasing order.
\<close>

definition occurs_at :: "'a list \<Rightarrow> 'a list \<Rightarrow> nat \<Rightarrow> bool" where
  "occurs_at sub s i = (i + length sub \<le> length s \<and> take (length sub) (drop i s) = sub)"

definition first_occurrence :: "'a list \<Rightarrow> 'a list \<Rightarrow> nat \<Rightarrow> bool" where
  "first_occurrence sub s i = (occurs_at sub s i \<and> \<not> list_ex (occurs_at sub s) [0..<i])"

definition occurrences :: "'a list \<Rightarrow> 'a list \<Rightarrow> nat list" where
  "occurrences sub s = filter (occurs_at sub s) [0..<Suc (length s)]"

section \<open>Occurrences, \<open>find\<close> and slices\<close>

text \<open>
  An occurrence at index \<open>i\<close> is a way of cutting the text into a part of length \<open>i\<close>,
  the marker, and a rest; a text contains a marker exactly when the marker occurs at some
  index.
\<close>

lemma occurs_at_Nil: "occurs_at sub [] i \<longleftrightarrow> sub = [] \<and> i = 0"
  by (auto simp: occurs_at_def)

lemma occurs_at_Cons_Suc: "occurs_at sub (c # cs) (Suc i) \<longleftrightarrow> occurs_at sub cs i"
  by (simp add: occurs_at_def)

lemma occurs_at_iff_decomp:
  "occurs_at sub s i \<longleftrightarrow> (\<exists>p r. s = p @ sub @ r \<and> length p = i)"
proof
  assume h: "occurs_at sub s i"
  then have "s = take i s @ sub @ drop (i + length sub) s"
    by (metis occurs_at_def append_take_drop_id drop_drop add.commute)
  moreover from h have "length (take i s) = i" by (simp add: occurs_at_def)
  ultimately show "\<exists>p r. s = p @ sub @ r \<and> length p = i" by blast
next
  assume "\<exists>p r. s = p @ sub @ r \<and> length p = i"
  then show "occurs_at sub s i" by (auto simp: occurs_at_def)
qed

lemma occurs_at_0: "occurs_at sub s 0 \<longleftrightarrow> prefix sub s"
  by (auto simp: occurs_at_iff_decomp prefix_def)

lemma sublist_iff_occurs: "sublist sub s \<longleftrightarrow> (\<exists>i. occurs_at sub s i)"
  by (auto simp: sublist_def occurs_at_iff_decomp)

lemma occurs_imp_sublist: "occurs_at sub s k \<Longrightarrow> sublist sub s"
  by (auto simp: sublist_iff_occurs)

lemma first_occurrence_0: "first_occurrence sub s 0 \<longleftrightarrow> occurs_at sub s 0"
  by (simp add: first_occurrence_def)

lemma first_occurrence_alt:
  "first_occurrence sub s i \<longleftrightarrow> occurs_at sub s i \<and> (\<forall>k<i. \<not> occurs_at sub s k)"
  by (auto simp: first_occurrence_def list_ex_iff)

lemma first_occurrence_Cons_Suc:
  "first_occurrence sub (c # cs) (Suc i) \<longleftrightarrow> \<not> prefix sub (c # cs) \<and> first_occurrence sub cs i"
  unfolding first_occurrence_alt
  apply (auto simp: occurs_at_Cons_Suc occurs_at_0 less_Suc_eq_0_disj)
  done

lemma first_occurrence_occurs: "first_occurrence sub s i \<Longrightarrow> occurs_at sub s i"
  by (simp add: first_occurrence_def)

lemma first_occurrence_after:
  assumes "s = p @ sub @ r" and "\<And>k. k < length p \<Longrightarrow> occurs_at sub s k \<Longrightarrow> False"
  shows "first_occurrence sub s (length p)"
  unfolding first_occurrence_alt using assms
  by (auto simp: occurs_at_iff_decomp)

text \<open>
  \<open>find_str\<close> meets the description of \<open>str.find\<close>: it is \<open>-1\<close> exactly when the
  marker is not contained in the text, and otherwise the index of the first occurrence.
\<close>

lemma find_str_lower: "- 1 \<le> find_str s sub"
  by (induction s) (auto simp: Let_def)

lemma find_str_not_found: "find_str s sub = - 1 \<longleftrightarrow> \<not> sublist sub s"
proof (induction s)
  case Nil
  then show ?case by auto
next
  case (Cons c cs)
  have "- 1 \<le> find_str cs sub" by (rule find_str_lower)
  with Cons show ?case
    by (cases sub) (auto simp: Let_def sublist_Cons_right)
qed

lemma find_str_first: "find_str s sub = int i \<longleftrightarrow> first_occurrence sub s i"
proof (induction s arbitrary: i)
  case Nil
  then show ?case by (auto simp: first_occurrence_alt occurs_at_Nil)
next
  case (Cons c cs)
  show ?case
  proof (cases "prefix sub (c # cs)")
    case True
    then show ?thesis
      by (cases i) (auto simp: first_occurrence_0 occurs_at_0 first_occurrence_Cons_Suc)
  next
    case False
    have lo: "- 1 \<le> find_str cs sub" by (rule find_str_lower)
    show ?thesis
    proof (cases i)
      case 0
      with False lo show ?thesis
        by (auto simp: Let_def first_occurrence_0 occurs_at_0)
    next
      case (Suc k)
      with False lo Cons [of k] show ?thesis
        by (auto simp: Let_def first_occurrence_Cons_Suc)
    qed
  qed
qed

lemma first_occurrence_unique:
  "first_occurrence sub s i \<Longrightarrow> first_occurrence sub s j \<Longrightarrow> i = j"
  by (metis find_str_first of_nat_eq_iff)


text \<open>A slice bound that is a natural number cuts the text there.\<close>

lemma slice_to_nat: "slice_to s (int i) = take i s"
  by (simp add: slice_to_def slice_bound_def min_def)

lemma slice_from_nat: "slice_from s (int i) = drop i s"
  by (simp add: slice_from_def slice_bound_def min_def)

lemma slice_bound_le: "slice_bound n i \<le> n"
  by (auto simp: slice_bound_def max_def)

text \<open>Occurrences in a text made of two parts.\<close>

lemma occurs_at_nth:
  assumes "occurs_at sub s j" and "k < length sub"
  shows "s ! (j + k) = sub ! k"
proof -
  from assms(1) have len: "j + length sub \<le> length s"
    and eq: "take (length sub) (drop j s) = sub"
    by (simp_all add: occurs_at_def)
  have "take (length sub) (drop j s) ! k = s ! (j + k)"
    using assms(2) len by simp
  with eq show ?thesis by simp
qed

lemma occurs_at_hd:
  assumes "occurs_at sub s j" and "sub \<noteq> []"
  shows "s ! j = hd sub"
  using occurs_at_nth [OF assms(1), of 0] assms(2) by (simp add: hd_conv_nth)

lemma occurs_at_split:
  assumes "occurs_at sub s i"
  shows "take (i + length sub) s = take i s @ sub"
    and "drop i s = sub @ drop (i + length sub) s"
proof -
  from assms have eq: "take (length sub) (drop i s) = sub" by (simp add: occurs_at_def)
  show "take (i + length sub) s = take i s @ sub"
    using take_add [of i "length sub" s] eq by simp
  show "drop i s = sub @ drop (i + length sub) s"
    using append_take_drop_id [of "length sub" "drop i s"] eq by (simp add: add.commute)
qed

lemma occurs_at_append_left:
  "occurs_at sub p j \<Longrightarrow> occurs_at sub (p @ r) j"
  by (auto simp: occurs_at_def)

lemma occurs_at_within_left:
  "occurs_at sub (p @ r) j \<Longrightarrow> j + length sub \<le> length p \<Longrightarrow> occurs_at sub p j"
  by (auto simp: occurs_at_def)

lemma occurs_at_append_right:
  "length p \<le> j \<Longrightarrow> occurs_at sub (p @ r) j \<longleftrightarrow> occurs_at sub r (j - length p)"
  by (auto simp: occurs_at_def)

lemma nth_in_tl: "0 < k \<Longrightarrow> k < length xs \<Longrightarrow> xs ! k \<in> set (tl xs)"
  by (cases xs) (auto simp: nth_Cons')

text \<open>An occurrence cannot run across a character that the marker has only at its head.\<close>

lemma occurs_at_stops_before:
  assumes occ: "occurs_at sub (p @ c # r) j" and lt: "j < length p"
    and c: "c \<notin> set (tl sub)"
  shows "j + length sub \<le> length p"
proof (rule ccontr)
  assume "\<not> j + length sub \<le> length p"
  with lt have k: "0 < length p - j" "length p - j < length sub" by auto
  from occurs_at_nth [OF occ k(2)] lt have "sub ! (length p - j) = c"
    by simp
  moreover from k have "sub ! (length p - j) \<in> set (tl sub)"
    by (rule nth_in_tl)
  ultimately show False using c by simp
qed

section \<open>The shape of the markers\<close>

text \<open>
  Both markers and the link tag start with \<open><\<close> (code point 60) and have no other
  \<open><\<close>; their second characters differ.
\<close>

lemma start_tag_eq: "start_tag = [60, 115, 116, 121, 108, 101, 62]"
  by (simp add: start_tag_def lit_def)

lemma end_tag_eq: "end_tag = [60, 47, 115, 116, 121, 108, 101, 62]"
  by (simp add: end_tag_def lit_def)

lemma link_tag_tl: "60 \<notin> set (tl link_tag)"
  by (simp add: link_tag_def lit_def)

lemma length_link_tag: "length link_tag = 45"
  by (simp add: link_tag_def lit_def)

lemma start_tag_tl: "60 \<notin> set (tl start_tag)"
  by (simp add: start_tag_eq)

lemma end_tag_tl: "60 \<notin> set (tl end_tag)"
  by (simp add: end_tag_eq)

text \<open>No marker begins inside a text that starts like a tag other than the marker
  and has no further \<open><\<close>.\<close>

lemma no_start_tag_from:
  assumes occ: "occurs_at start_tag (t @ r) d" and d: "d < length t"
    and t: "60 \<notin> set (tl t)" "2 \<le> length t" "t ! 1 \<noteq> 115"
  shows False
proof -
  from occ have h: "(t @ r) ! d = 60"
    using occurs_at_hd [of start_tag "t @ r" d] by (simp add: start_tag_eq)
  show False
  proof (cases d)
    case 0
    from occurs_at_nth [OF occ, of 1] 0 t show False
      by (simp add: start_tag_eq nth_append)
  next
    case (Suc k)
    with d have "t ! d \<in> set (tl t)" by (simp add: nth_in_tl)
    with h d t show False by (simp add: nth_append)
  qed
qed

lemma no_end_tag_from:
  assumes occ: "occurs_at end_tag (t @ r) d" and d: "d < length t"
    and t: "60 \<notin> set (tl t)" "2 \<le> length t" "t ! 1 \<noteq> 47"
  shows False
proof -
  from occ have h: "(t @ r) ! d = 60"
    using occurs_at_hd [of end_tag "t @ r" d] by (simp add: end_tag_eq)
  show False
  proof (cases d)
    case 0
    from occurs_at_nth [OF occ, of 1] 0 t show False
      by (simp add: end_tag_eq nth_append)
  next
    case (Suc k)
    with d have "t ! d \<in> set (tl t)" by (simp add: nth_in_tl)
    with h d t show False by (simp add: nth_append)
  qed
qed

text \<open>The two markers never overlap.\<close>

lemma markers_disjoint:
  assumes s: "occurs_at start_tag c i" and e: "occurs_at end_tag c j"
  shows "i + length start_tag \<le> j \<or> j + length end_tag \<le> i"
proof (rule ccontr)
  assume n: "\<not> (i + length start_tag \<le> j \<or> j + length end_tag \<le> i)"
  show False
  proof (cases "i \<le> j")
    case True
    with n have off: "j - i < length start_tag" by arith
    from s have c: "c = take i c @ start_tag @ drop (i + length start_tag) c"
      by (metis occurs_at_def append_take_drop_id drop_drop add.commute)
    from s have li: "length (take i c) = i" by (simp add: occurs_at_def)
    from e True li have "occurs_at end_tag (start_tag @ drop (i + length start_tag) c) (j - i)"
      using occurs_at_append_right [of "take i c" j end_tag "start_tag @ drop (i + length start_tag) c"] c
      by simp
    from no_end_tag_from [OF this off] show False by (simp add: start_tag_eq)
  next
    case False
    with n have off: "i - j < length end_tag" "0 < i - j" by arith+
    from occurs_at_nth [OF e off(1)] False have "c ! i = end_tag ! (i - j)" by simp
    moreover from occurs_at_hd [OF s] have "c ! i = 60" by (simp add: start_tag_eq)
    moreover from off have "end_tag ! (i - j) \<in> set (tl end_tag)"
      by (simp add: nth_in_tl)
    ultimately show False using end_tag_tl by simp
  qed
qed

section \<open>The two branches of the script\<close>

lemma update_styles_found:
  assumes "first_occurrence start_tag (file_text w) i"
    and "first_occurrence end_tag (file_text w) j"
  shows "update_styles w =
    w\<lparr>file_text := take i (file_text w) @ link_tag @ drop (j + length end_tag) (file_text w),
      writes := writes w
        @ [take i (file_text w) @ link_tag @ drop (j + length end_tag) (file_text w)],
      console := console w @ [''Successfully replaced style block with link.'']\<rparr>"
proof -
  from assms have s: "find_str (file_text w) start_tag = int i"
    and e: "find_str (file_text w) end_tag = int j"
    by (simp_all add: find_str_first)
  have "int j + int (length end_tag) = int (j + length end_tag)" by simp
  then show ?thesis
    unfolding update_styles_def Let_def new_content_def s e
    by (simp only: slice_to_nat slice_from_nat) simp
qed

lemma update_styles_not_found:
  assumes "\<not> sublist start_tag (file_text w) \<or> \<not> sublist end_tag (file_text w)"
  shows "update_styles w = w\<lparr>console := console w @ [''Could not find style block.'']\<rparr>"
  using assms by (auto simp: update_styles_def Let_def find_str_not_found)

lemma initial_simps:
  "file_text (initial c) = c" "writes (initial c) = []" "console (initial c) = []"
  by (simp_all add: initial_def)

lemma update_styles_initial_found:
  assumes "first_occurrence start_tag content i" and "first_occurrence end_tag content j"
  shows "update_styles (initial content) =
    \<lparr>file_text = take i content @ link_tag @ drop (j + length end_tag) content,
     writes = [take i content @ link_tag @ drop (j + length end_tag) content],
     console = [''Successfully replaced style block with link.'']\<rparr>"
  using update_styles_found [of "initial content" i j] assms
  by (simp add: initial_def)

section \<open>The patched text\<close>

lemma set_occurrences: "k \<in> set (occurrences sub s) \<longleftrightarrow> occurs_at sub s k"
  by (auto simp: occurrences_def occurs_at_def simp del: upt_Suc)

lemma occurrences_single:
  assumes "occurrences sub s = [i]"
  shows "first_occurrence sub s i" and "\<And>k. occurs_at sub s k \<Longrightarrow> k = i"
proof -
  have mem: "\<And>k. occurs_at sub s k \<longleftrightarrow> k \<in> set [i]"
    unfolding assms [symmetric] by (rule set_occurrences [symmetric])
  then show only: "\<And>k. occurs_at sub s k \<Longrightarrow> k = i"
    by simp
  from mem have "occurs_at sub s i" by simp
  moreover from mem have "\<forall>k<i. \<not> occurs_at sub s k" by simp
  ultimately show "first_occurrence sub s i"
    unfolding first_occurrence_alt by (rule conjI)
qed

lemma occurs_at_take:
  assumes "occurs_at sub (take n s) k"
  shows "occurs_at sub s k"
proof -
  from assms have "occurs_at sub (take n s @ drop n s) k"
    by (rule occurs_at_append_left)
  then show ?thesis by (simp only: append_take_drop_id)
qed

lemma occurs_at_drop:
  assumes "occurs_at sub (drop n s) k" and "sub \<noteq> []"
  shows "occurs_at sub s (n + k)"
proof -
  from assms(1) have "k + length sub \<le> length s - n" by (simp add: occurs_at_def)
  moreover from assms(2) have "0 < length sub" by simp
  ultimately have n: "n \<le> length s" by arith
  then have len: "length (take n s) = n" by simp
  then have "length (take n s) \<le> n + k" by simp
  from occurs_at_append_right [OF this, of sub "drop n s"] assms(1)
  have "occurs_at sub (take n s @ drop n s) (n + k)"
    unfolding len by simp
  then show ?thesis by (simp only: append_take_drop_id)
qed

lemma link_tag_1: "link_tag ! 1 = 108"
  by (simp add: link_tag_def lit_def)

lemma link_tag_no_start: "d < length link_tag \<Longrightarrow> occurs_at start_tag (link_tag @ r) d \<Longrightarrow> False"
  using no_start_tag_from [of link_tag r d] link_tag_tl length_link_tag link_tag_1
  by simp

lemma link_tag_no_end: "d < length link_tag \<Longrightarrow> occurs_at end_tag (link_tag @ r) d \<Longrightarrow> False"
  using no_end_tag_from [of link_tag r d] link_tag_tl length_link_tag link_tag_1
  by simp

text \<open>A marker that occurs in the text only between \<open>i\<close> and \<open>j\<close> does not occur in the
  patched text.\<close>

lemma patched_has_no_marker:
  assumes occ: "occurs_at m (take i c @ link_tag @ drop (j + n) c) k"
    and range: "\<And>k. occurs_at m c k \<Longrightarrow> i \<le> k \<and> k \<le> j"
    and i: "i \<le> length c" and n: "0 < n" and m: "m \<noteq> []" "60 \<notin> set (tl m)"
    and link: "\<And>r d. d < length link_tag \<Longrightarrow> occurs_at m (link_tag @ r) d \<Longrightarrow> False"
  shows False
proof (cases "k < i")
  case True
  from i have len: "length (take i c) = i" by simp
  with True have k: "k < length (take i c)" by simp
  have "link_tag @ drop (j + n) c = 60 # (tl link_tag @ drop (j + n) c)"
    by (simp add: link_tag_def lit_def)
  with occ have occ': "occurs_at m (take i c @ 60 # (tl link_tag @ drop (j + n) c)) k"
    by (simp only:)
  have "occurs_at m (take i c) k"
    by (rule occurs_at_within_left [OF occ' occurs_at_stops_before [OF occ' k m(2)]])
  then have "occurs_at m c k" by (rule occurs_at_take)
  from range [OF this] True show False by simp
next
  case False
  from i have len: "length (take i c) = i" by simp
  with False have "length (take i c) \<le> k" by simp
  from occurs_at_append_right [OF this, of m "link_tag @ drop (j + n) c"] occ
  have in2: "occurs_at m (link_tag @ drop (j + n) c) (k - i)"
    unfolding len by simp
  show False
  proof (cases "k - i < length link_tag")
    case True
    from link [OF True in2] show False .
  next
    case False
    then have "length link_tag \<le> k - i" by simp
    from occurs_at_append_right [OF this, of m "drop (j + n) c"] in2
    have "occurs_at m (drop (j + n) c) (k - i - length link_tag)" by simp
    from range [OF occurs_at_drop [OF this m(1)]] n show False by simp
  qed
qed

section \<open>The codec and the line endings on known inputs\<close>

text \<open>
  ASCII bytes decode to themselves. Two, three and four byte forms decode to their code
  points; an overlong form, a surrogate, a code point above \<open>0x10FFFF\<close>, a sequence cut
  short and a stray continuation byte are refused.
\<close>

lemma decode_utf8_ascii:
  "list_all (\<lambda>b. (of_char b :: nat) < 128) bs \<Longrightarrow> decode_utf8 bs = Some (map of_char bs)"
  by (induction bs) simp_all

lemma decode_utf8_examples:
  "decode_utf8 [CHR 0xC3, CHR 0xA9] = Some [233]"
  "decode_utf8 [CHR 0xE2, CHR 0x82, CHR 0xAC] = Some [8364]"
  "decode_utf8 [CHR 0xF0, CHR 0x9F, CHR 0x98, CHR 0x80] = Some [128512]"
  "decode_utf8 [CHR 0xC0, CHR 0x80] = None"
  "decode_utf8 [CHR 0xE0, CHR 0x9F, CHR 0xBF] = None"
  "decode_utf8 [CHR 0xED, CHR 0xA0, CHR 0x80] = None"
  "decode_utf8 [CHR 0xF4, CHR 0x90, CHR 0x80, CHR 0x80] = None"
  "decode_utf8 [CHR 0xE2, CHR 0x82] = None"
  "decode_utf8 [CHR 0x80] = None"
  by (simp_all add: continuation_def)

lemma encode_utf8_examples:
  "encode_utf8 [233] = Some [CHR 0xC3, CHR 0xA9]"
  "encode_utf8 [8364] = Some [CHR 0xE2, CHR 0x82, CHR 0xAC]"
  "encode_utf8 [128512] = Some [CHR 0xF0, CHR 0x9F, CHR 0x98, CHR 0x80]"
  "encode_utf8 [55296] = None"
  by (simp_all add: char_of_def bit_Suc_0_iff)

lemma read_newlines_example:
  "read_newlines [97, 13, 10, 98, 13, 99, 10, 13] = [97, 10, 98, 10, 99, 10, 10]"
  by simp

lemma read_newlines_no_cr: "13 \<notin> set s \<Longrightarrow> read_newlines s = s"
  by (induction s rule: read_newlines.induct) auto

section \<open>Writing the patched text\<close>

text \<open>
  Encoding and the translation of line endings work piece by piece, and the link tag is
  written as its own ASCII bytes on every platform.
\<close>

lemma encode_utf8_ascii:
  "list_all (\<lambda>b. (of_char b :: nat) < 128) bs \<Longrightarrow> encode_utf8 (map of_char bs) = Some bs"
  by (induction bs) simp_all

lemma encode_utf8_append:
  "encode_utf8 (xs @ ys) =
     (case encode_utf8 xs of
        None \<Rightarrow> None
      | Some a \<Rightarrow> (case encode_utf8 ys of None \<Rightarrow> None | Some b \<Rightarrow> Some (a @ b)))"
  by (induction xs) (auto split: option.splits)

lemma write_newlines_append:
  "write_newlines linesep (xs @ ys) = write_newlines linesep xs @ write_newlines linesep ys"
  by (simp add: write_newlines_def)

lemma write_newlines_no_newline:
  "10 \<notin> set s \<Longrightarrow> write_newlines linesep s = s"
  by (induction s) (simp_all add: write_newlines_def)

lemma write_file_append:
  "write_file linesep (xs @ ys) =
     (case write_file linesep xs of
        Inl e \<Rightarrow> Inl UnicodeEncodeError
      | Inr a \<Rightarrow>
          (case write_file linesep ys of
             Inl e \<Rightarrow> Inl UnicodeEncodeError
           | Inr b \<Rightarrow> Inr (a @ b)))"
  by (simp add: write_file_def write_newlines_append encode_utf8_append split: option.splits)

lemma write_file_link_tag:
  \<open>write_file linesep (lit ''<link rel="stylesheet" href="css/styles.css">'') =
     Inr ''<link rel="stylesheet" href="css/styles.css">''\<close>
proof -
  have w: \<open>write_newlines linesep (lit ''<link rel="stylesheet" href="css/styles.css">'') =
      lit ''<link rel="stylesheet" href="css/styles.css">''\<close>
    by (rule write_newlines_no_newline) (simp add: lit_def)
  have e: \<open>encode_utf8 (map of_char ''<link rel="stylesheet" href="css/styles.css">'') =
      Some ''<link rel="stylesheet" href="css/styles.css">''\<close>
    by (rule encode_utf8_ascii) simp
  show ?thesis
    unfolding write_file_def w unfolding lit_def e by simp
qed

lemma script_found:
  assumes r: "read_file bytes = Inr content"
    and u: "update_styles (initial content) = \<lparr>file_text = new, writes = [new], console = out\<rparr>"
  shows "script linesep bytes =
     (case write_file linesep new of Inl e \<Rightarrow> Inl e | Inr b \<Rightarrow> Inr (b, out))"
  by (simp add: script_def r u split: sum.splits)

section \<open>A single block\<close>

lemma update_styles_single_block:
  assumes c: "content = pre @ start_tag @ body @ end_tag @ post"
    and p1: "\<not> sublist start_tag pre"
    and p2: "\<not> sublist end_tag pre"
    and b: "\<not> sublist end_tag body"
  shows "update_styles (initial content) =
    \<lparr>file_text = pre @ link_tag @ post,
     writes = [pre @ link_tag @ post],
     console = [''Successfully replaced style block with link.'']\<rparr>"
proof -
  have s: "first_occurrence start_tag content (length pre)"
  proof (rule first_occurrence_after)
    show "content = pre @ start_tag @ (body @ end_tag @ post)" using c by simp
  next
    fix k assume k: "k < length pre" and occ: "occurs_at start_tag content k"
    from occ c have "occurs_at start_tag (pre @ 60 # (tl start_tag @ body @ end_tag @ post)) k"
      by (simp add: start_tag_eq)
    from occurs_at_within_left [OF this occurs_at_stops_before [OF this k start_tag_tl]]
    show False using p1 by (simp add: occurs_imp_sublist)
  qed
  have e: "first_occurrence end_tag content (length (pre @ start_tag @ body))"
  proof (rule first_occurrence_after)
    show "content = (pre @ start_tag @ body) @ end_tag @ post" using c by simp
  next
    fix k assume k: "k < length (pre @ start_tag @ body)" and occ: "occurs_at end_tag content k"
    from occ c have "occurs_at end_tag ((pre @ start_tag @ body) @ 60 # (tl end_tag @ post)) k"
      by (simp add: end_tag_eq)
    from occurs_at_within_left [OF this occurs_at_stops_before [OF this k end_tag_tl]]
    have in3: "occurs_at end_tag (pre @ start_tag @ body) k" .
    show False
    proof (cases "k < length pre")
      case True
      from in3 have "occurs_at end_tag (pre @ 60 # (tl start_tag @ body)) k"
        by (simp add: start_tag_eq)
      from occurs_at_within_left [OF this occurs_at_stops_before [OF this True end_tag_tl]]
      show False using p2 by (simp add: occurs_imp_sublist)
    next
      case False
      then have in2: "occurs_at end_tag (start_tag @ body) (k - length pre)"
        using in3 occurs_at_append_right [of pre k end_tag "start_tag @ body"] by simp
      show False
      proof (cases "k - length pre < length start_tag")
        case True
        from no_end_tag_from [OF in2 True] show False by (simp add: start_tag_eq)
      next
        case False
        then have "occurs_at end_tag body (k - length pre - length start_tag)"
          using in2 occurs_at_append_right [of start_tag "k - length pre" end_tag body] by simp
        then show False using b by (simp add: occurs_imp_sublist)
      qed
    qed
  qed
  from update_styles_initial_found [OF s e] show ?thesis
    by (simp add: c)
qed

section \<open>The claims\<close>



text \<open>
  C2. When \<open><style>\<close> or \<open></style>\<close> is not contained in the text, nothing is written,
  the file keeps its text, and the not-found line is printed.
\<close>

theorem no_marker_no_write:
  assumes "\<not> sublist start_tag content \<or> \<not> sublist end_tag content"
  shows "update_styles (initial content) =
    \<lparr>file_text = content, writes = [], console = [''Could not find style block.'']\<rparr>"
  using update_styles_not_found [of "initial content"] assms
  by (simp add: initial_def)

theorem no_marker_no_write_witness:
  "\<not> sublist end_tag (lit ''<style>p{}'')
   \<and> update_styles (initial (lit ''<style>p{}'')) =
       \<lparr>file_text = lit ''<style>p{}'', writes = [],
        console = [''Could not find style block.'']\<rparr>"
proof -
  have a: "\<not> sublist end_tag (lit ''<style>p{}'')"
    by (simp add: end_tag_def lit_def sublist_code)
  then have "\<not> sublist start_tag (lit ''<style>p{}'') \<or> \<not> sublist end_tag (lit ''<style>p{}'')"
    by simp
  from a no_marker_no_write [OF this] show ?thesis by blast
qed

text \<open>
  C3. Let the text of the file, as the script reads it, be
  \<open>pre @ <style> @ body @ </style> @ post\<close>, where \<open>pre\<close> contains neither marker and
  \<open>body\<close> does not contain \<open></style>\<close>. Then the text handed to \<open>f.write\<close> is \<open>pre\<close>,
  the link tag \<open><link rel="stylesheet" href="css/styles.css">\<close> and \<open>post\<close>: the block is
  replaced and the text around it is kept, code point for code point. The bytes of the
  file afterwards are the bytes \<open>pre\<close> is written as, the bytes of the link tag and the
  bytes \<open>post\<close> is written as, each line ending of \<open>pre\<close> and \<open>post\<close> written as
  \<open>os.linesep\<close>.
\<close>

theorem single_block_replaced:
  assumes c: "content = pre @ start_tag @ body @ end_tag @ post"
    and p1: "\<not> sublist start_tag pre"
    and p2: "\<not> sublist end_tag pre"
    and b: "\<not> sublist end_tag body"
  shows \<open>update_styles (initial content) =
      \<lparr>file_text = pre @ lit ''<link rel="stylesheet" href="css/styles.css">'' @ post,
       writes = [pre @ lit ''<link rel="stylesheet" href="css/styles.css">'' @ post],
       console = [''Successfully replaced style block with link.'']\<rparr>
    \<and> (read_file bytes = Inr content \<longrightarrow>
         script linesep bytes =
           (case write_file linesep pre of
              Inl e \<Rightarrow> Inl UnicodeEncodeError
            | Inr pre_bytes \<Rightarrow>
                (case write_file linesep post of
                   Inl e \<Rightarrow> Inl UnicodeEncodeError
                 | Inr post_bytes \<Rightarrow>
                     Inr (pre_bytes @ ''<link rel="stylesheet" href="css/styles.css">''
                            @ post_bytes,
                          [''Successfully replaced style block with link.'']))))\<close>
proof -
  let ?link = \<open>lit ''<link rel="stylesheet" href="css/styles.css">''\<close>
  have u: "update_styles (initial content) =
      \<lparr>file_text = pre @ ?link @ post, writes = [pre @ ?link @ post],
       console = [''Successfully replaced style block with link.'']\<rparr>"
    using update_styles_single_block [OF c p1 p2 b] by (simp only: link_tag_def)
  have w: "write_file linesep (pre @ ?link @ post) =
      (case write_file linesep pre of
         Inl e \<Rightarrow> Inl UnicodeEncodeError
       | Inr a \<Rightarrow>
           (case write_file linesep post of
              Inl e \<Rightarrow> Inl UnicodeEncodeError
            | Inr b \<Rightarrow> Inr (a @ ''<link rel=\"stylesheet\" href=\"css/styles.css\">'' @ b)))"
    by (simp only: write_file_append [of linesep pre] write_file_append [of linesep ?link]
          write_file_link_tag sum.case split: sum.splits)
      (simp split: sum.splits)
  have "read_file bytes = Inr content \<longrightarrow>
      script linesep bytes =
        (case write_file linesep (pre @ ?link @ post) of
           Inl e \<Rightarrow> Inl e
         | Inr b \<Rightarrow> Inr (b, [''Successfully replaced style block with link.'']))"
    using script_found [OF _ u] by blast
  then show ?thesis
    unfolding w using u by (auto split: sum.splits)
qed

theorem single_block_replaced_witness:
  \<open>\<not> sublist start_tag [97, 10]
   \<and> \<not> sublist end_tag [97, 10]
   \<and> \<not> sublist end_tag [98]
   \<and> read_file (''a'' @ [CHR 0x0A] @ ''<style>b</style>c'') =
        Inr ([97, 10] @ start_tag @ [98] @ end_tag @ [99])
   \<and> update_styles (initial ([97, 10] @ start_tag @ [98] @ end_tag @ [99])) =
      \<lparr>file_text = [97, 10] @ lit ''<link rel="stylesheet" href="css/styles.css">'' @ [99],
       writes = [[97, 10] @ lit ''<link rel="stylesheet" href="css/styles.css">'' @ [99]],
       console = [''Successfully replaced style block with link.'']\<rparr>
   \<and> script [13, 10] (''a'' @ [CHR 0x0A] @ ''<style>b</style>c'') =
        Inr (''a'' @ [CHR 0x0D, CHR 0x0A] @ ''<link rel="stylesheet" href="css/styles.css">''
               @ ''c'',
             [''Successfully replaced style block with link.''])\<close>
proof -
  have c: "[97, 10] @ start_tag @ [98] @ end_tag @ [99] = [97, 10] @ start_tag @ [98] @ end_tag @ [99]"
    by (rule refl)
  have p1: "\<not> sublist start_tag [97, 10]"
    by (simp add: start_tag_def lit_def sublist_code)
  have p2: "\<not> sublist end_tag [97, 10]"
    by (simp add: end_tag_def lit_def sublist_code)
  have b: "\<not> sublist end_tag [98]"
    by (simp add: end_tag_def lit_def sublist_code)
  have r: "read_file (''a'' @ [CHR 0x0A] @ ''<style>b</style>c'') =
        Inr ([97, 10] @ start_tag @ [98] @ end_tag @ [99])"
    by (simp add: read_file_def start_tag_def end_tag_def lit_def)
  have w1: "write_file [13, 10] [97, 10] = Inr (''a'' @ [CHR 0x0D, CHR 0x0A])"
    by (simp add: write_file_def write_newlines_def char_of_def bit_Suc_0_iff)
  have w2: "write_file [13, 10] [99] = Inr ''c''"
    by (simp add: write_file_def write_newlines_def char_of_def bit_Suc_0_iff)
  from single_block_replaced [OF c p1 p2 b,
      of "''a'' @ [CHR 0x0A] @ ''<style>b</style>c''" "[13, 10]"] r
  have "update_styles (initial ([97, 10] @ start_tag @ [98] @ end_tag @ [99])) =
      \<lparr>file_text = [97, 10] @ lit ''<link rel=\"stylesheet\" href=\"css/styles.css\">'' @ [99],
       writes = [[97, 10] @ lit ''<link rel=\"stylesheet\" href=\"css/styles.css\">'' @ [99]],
       console = [''Successfully replaced style block with link.'']\<rparr>"
    and "script [13, 10] (''a'' @ [CHR 0x0A] @ ''<style>b</style>c'') =
        Inr (''a'' @ [CHR 0x0D, CHR 0x0A] @ ''<link rel=\"stylesheet\" href=\"css/styles.css\">''
               @ ''c'',
             [''Successfully replaced style block with link.''])"
    unfolding w1 w2 by simp_all
  with p1 p2 b r show ?thesis by simp
qed

text \<open>
  The bytes before and after the block are not always kept. Where \<open>os.linesep\<close> is
  CR LF, the file made of \<open>a\<close>, LF and \<open><style>b</style>c\<close> becomes \<open>a\<close>, CR LF, the
  link tag and \<open>c\<close>; where it is LF, the file made of \<open>a\<close>, CR LF and
  \<open><style>b</style>c\<close> becomes \<open>a\<close>, LF, the link tag and \<open>c\<close>. In both files the part
  before the block contains no marker and the body is \<open>b\<close>, so the block is a single
  well-formed one, and the bytes before it are not the bytes written.
\<close>

theorem single_block_bytes_counterexample:
  \<open>\<not> sublist ''<style>'' (''a'' @ [CHR 0x0A])
   \<and> \<not> sublist ''</style>'' (''a'' @ [CHR 0x0A])
   \<and> \<not> sublist ''</style>'' ''b''
   \<and> script [13, 10] ((''a'' @ [CHR 0x0A]) @ ''<style>'' @ ''b'' @ ''</style>'' @ ''c'') =
        Inr (''a'' @ [CHR 0x0D, CHR 0x0A] @ ''<link rel="stylesheet" href="css/styles.css">''
               @ ''c'',
             [''Successfully replaced style block with link.''])
   \<and> ''a'' @ [CHR 0x0D, CHR 0x0A] @ ''<link rel="stylesheet" href="css/styles.css">'' @ ''c''
       \<noteq> (''a'' @ [CHR 0x0A]) @ ''<link rel="stylesheet" href="css/styles.css">'' @ ''c''
   \<and> \<not> sublist ''<style>'' (''a'' @ [CHR 0x0D, CHR 0x0A])
   \<and> \<not> sublist ''</style>'' (''a'' @ [CHR 0x0D, CHR 0x0A])
   \<and> script [10] ((''a'' @ [CHR 0x0D, CHR 0x0A]) @ ''<style>'' @ ''b'' @ ''</style>'' @ ''c'') =
        Inr (''a'' @ [CHR 0x0A] @ ''<link rel="stylesheet" href="css/styles.css">'' @ ''c'',
             [''Successfully replaced style block with link.''])
   \<and> ''a'' @ [CHR 0x0A] @ ''<link rel="stylesheet" href="css/styles.css">'' @ ''c''
       \<noteq> (''a'' @ [CHR 0x0D, CHR 0x0A]) @ ''<link rel="stylesheet" href="css/styles.css">''
           @ ''c''\<close>
  by (simp add: sublist_code script_def read_file_def write_file_def write_newlines_def
      update_styles_def initial_def new_content_def slice_to_def slice_from_def
      slice_bound_def start_tag_def end_tag_def link_tag_def lit_def
      char_of_def bit_Suc_0_iff)


text \<open>
  C5. A text with exactly one occurrence of \<open><style>\<close> and exactly one of
  \<open></style>\<close>, the first before the second, is patched by the first run; the patched
  text contains neither marker, so the second run prints the not-found line, writes
  nothing and leaves the patched text as it is.
\<close>

theorem second_run_finds_nothing:
  assumes s: "occurrences start_tag content = [i]"
    and e: "occurrences end_tag content = [j]"
    and ord: "i < j"
  shows "update_styles (initial content) =
      \<lparr>file_text = take i content @ link_tag @ drop (j + length end_tag) content,
       writes = [take i content @ link_tag @ drop (j + length end_tag) content],
       console = [''Successfully replaced style block with link.'']\<rparr>
    \<and> \<not> sublist start_tag (file_text (update_styles (initial content)))
    \<and> \<not> sublist end_tag (file_text (update_styles (initial content)))
    \<and> update_styles (update_styles (initial content)) =
      \<lparr>file_text = file_text (update_styles (initial content)),
       writes = writes (update_styles (initial content)),
       console = [''Successfully replaced style block with link.'',
                  ''Could not find style block.'']\<rparr>"
proof -
  let ?new = "take i content @ link_tag @ drop (j + length end_tag) content"
  let ?w = "\<lparr>file_text = ?new, writes = [?new],
       console = [''Successfully replaced style block with link.'']\<rparr>"
  note fs = occurrences_single [OF s] and fe = occurrences_single [OF e]
  have run: "update_styles (initial content) = ?w"
    by (rule update_styles_initial_found [OF fs(1) fe(1)])
  from fs(1) have i: "i \<le> length content"
    by (simp add: first_occurrence_def occurs_at_def)
  have n: "0 < length end_tag" by (simp add: end_tag_eq)
  have no_s: "\<not> sublist start_tag ?new"
  proof
    assume "sublist start_tag ?new"
    then obtain k where occ: "occurs_at start_tag ?new k"
      unfolding sublist_iff_occurs by blast
    have range: "\<And>k. occurs_at start_tag content k \<Longrightarrow> i \<le> k \<and> k \<le> j"
      using fs(2) ord by fastforce
    have ne: "start_tag \<noteq> []" by (simp add: start_tag_eq)
    show False
      by (rule patched_has_no_marker [OF occ range i n ne start_tag_tl link_tag_no_start])
  qed
  have no_e: "\<not> sublist end_tag ?new"
  proof
    assume "sublist end_tag ?new"
    then obtain k where occ: "occurs_at end_tag ?new k"
      unfolding sublist_iff_occurs by blast
    have range: "\<And>k. occurs_at end_tag content k \<Longrightarrow> i \<le> k \<and> k \<le> j"
      using fe(2) ord by fastforce
    have ne: "end_tag \<noteq> []" by (simp add: end_tag_eq)
    show False
      by (rule patched_has_no_marker [OF occ range i n ne end_tag_tl link_tag_no_end])
  qed
  from no_s have "\<not> sublist start_tag (file_text ?w) \<or> \<not> sublist end_tag (file_text ?w)"
    by simp
  from update_styles_not_found [OF this]
  have again: "update_styles ?w =
      \<lparr>file_text = ?new, writes = [?new],
       console = [''Successfully replaced style block with link.'',
                  ''Could not find style block.'']\<rparr>"
    by simp
  show ?thesis
    unfolding run using no_s no_e again by simp
qed

theorem second_run_finds_nothing_witness:
  "occurrences start_tag (lit ''a<style>b</style>c'') = [1]
   \<and> occurrences end_tag (lit ''a<style>b</style>c'') = [9]
   \<and> (1::nat) < 9
   \<and> \<not> sublist start_tag (file_text (update_styles (initial (lit ''a<style>b</style>c''))))
   \<and> \<not> sublist end_tag (file_text (update_styles (initial (lit ''a<style>b</style>c''))))
   \<and> update_styles (update_styles (initial (lit ''a<style>b</style>c''))) =
      \<lparr>file_text = file_text (update_styles (initial (lit ''a<style>b</style>c''))),
       writes = writes (update_styles (initial (lit ''a<style>b</style>c''))),
       console = [''Successfully replaced style block with link.'',
                  ''Could not find style block.'']\<rparr>"
proof -
  have s: "occurrences start_tag (lit ''a<style>b</style>c'') = [1]"
    by code_simp
  have e: "occurrences end_tag (lit ''a<style>b</style>c'') = [9]"
    by code_simp
  have ord: "(1::nat) < 9" by simp
  from s e ord second_run_finds_nothing [OF s e ord] show ?thesis by blast
qed

text \<open>
  C6. On the text \<open><html><style>body{color:red}</style></html>\<close> the script writes
  \<open><html><link rel="stylesheet" href="css/styles.css"></html>\<close> and prints the success
  line.
\<close>

theorem scenario_style_block_replaced:
  \<open>update_styles (initial (lit ''<html><style>body{color:red}</style></html>'')) =
     \<lparr>file_text = lit ''<html><link rel="stylesheet" href="css/styles.css"></html>'',
      writes = [lit ''<html><link rel="stylesheet" href="css/styles.css"></html>''],
      console = [''Successfully replaced style block with link.'']\<rparr>\<close>
  by (simp add: update_styles_def initial_def new_content_def slice_to_def slice_from_def
      slice_bound_def start_tag_def end_tag_def link_tag_def lit_def)

text \<open>
  C7. On the text \<open><html><p>no style here</p></html>\<close> the script writes nothing, the
  file keeps its text, and the not-found line is printed.
\<close>

theorem scenario_no_style_block:
  "update_styles (initial (lit ''<html><p>no style here</p></html>'')) =
     \<lparr>file_text = lit ''<html><p>no style here</p></html>'',
      writes = [],
      console = [''Could not find style block.'']\<rparr>"
  by (simp add: update_styles_def initial_def start_tag_def end_tag_def lit_def)

text \<open>
  C8. Every run prints exactly one line, the success line or the not-found line: the
  success line together with one write of the new text of the file, the not-found line
  with no write and the text of the file unchanged. So the success line is printed
  exactly when the file is written.
\<close>

theorem one_status_line:
  "((console (update_styles (initial content)) =
       [''Successfully replaced style block with link.'']
     \<and> writes (update_styles (initial content)) = [file_text (update_styles (initial content))])
   \<or> (console (update_styles (initial content)) = [''Could not find style block.'']
     \<and> writes (update_styles (initial content)) = []
     \<and> file_text (update_styles (initial content)) = content))
   \<and> (console (update_styles (initial content)) =
         [''Successfully replaced style block with link.'']
       \<longleftrightarrow> writes (update_styles (initial content)) \<noteq> [])"
  by (simp add: update_styles_def Let_def initial_def)

text \<open>
  C9. When the first \<open></style>\<close> ends at or before the first \<open><style>\<close>, the script
  prints the success line, but the text it writes still contains both markers: what
  lies between the end marker and the start marker is there twice, once before the link
  tag and once after it, followed by the start marker.
\<close>

theorem end_before_start_keeps_markers:
  assumes s: "first_occurrence start_tag content i"
    and e: "first_occurrence end_tag content j"
    and ord: "j + length end_tag \<le> i"
  shows "console (update_styles (initial content)) =
           [''Successfully replaced style block with link.'']
    \<and> writes (update_styles (initial content)) = [file_text (update_styles (initial content))]
    \<and> file_text (update_styles (initial content)) =
        (let between = take (i - (j + length end_tag)) (drop (j + length end_tag) content)
         in take j content @ end_tag @ between @ link_tag
              @ between @ start_tag @ drop (i + length start_tag) content)
    \<and> sublist start_tag (file_text (update_styles (initial content)))
    \<and> sublist end_tag (file_text (update_styles (initial content)))"
proof -
  let ?n = "j + length end_tag"
  let ?between = "take (i - ?n) (drop ?n content)"
  let ?new = "take j content @ end_tag @ ?between @ link_tag
              @ ?between @ start_tag @ drop (i + length start_tag) content"
  from s e have os: "occurs_at start_tag content i" and oe: "occurs_at end_tag content j"
    by (simp_all add: first_occurrence_occurs)
  from ord have i: "i = ?n + (i - ?n)" by simp
  have "take i content = take ?n content @ ?between"
    using take_add [of ?n "i - ?n" content] i by simp
  then have before: "take i content = take j content @ end_tag @ ?between"
    by (simp add: occurs_at_split(1) [OF oe])
  have "drop ?n content = ?between @ drop (i - ?n) (drop ?n content)"
    by (simp only: append_take_drop_id)
  also have "drop (i - ?n) (drop ?n content) = drop i content"
    using ord by simp
  finally have after: "drop ?n content = ?between @ start_tag @ drop (i + length start_tag) content"
    using occurs_at_split(2) [OF os] by simp
  have new: "take i content @ link_tag @ drop ?n content = ?new"
    using before after by simp
  have run: "update_styles (initial content) =
      \<lparr>file_text = ?new, writes = [?new],
       console = [''Successfully replaced style block with link.'']\<rparr>"
    using update_styles_initial_found [OF s e] new by simp
  have "sublist start_tag ?new"
    unfolding sublist_def
    by (rule exI [of _ "take j content @ end_tag @ ?between @ link_tag @ ?between"],
        rule exI [of _ "drop (i + length start_tag) content"]) simp
  moreover have "sublist end_tag ?new"
    unfolding sublist_def
    by (rule exI [of _ "take j content"],
        rule exI [of _ "?between @ link_tag @ ?between @ start_tag
          @ drop (i + length start_tag) content"]) simp
  ultimately show ?thesis
    unfolding run by (simp add: Let_def)
qed

theorem end_before_start_keeps_markers_witness:
  "first_occurrence start_tag (lit ''a</style>b<style>c'') 10
   \<and> first_occurrence end_tag (lit ''a</style>b<style>c'') 1
   \<and> 1 + length end_tag \<le> (10::nat)
   \<and> console (update_styles (initial (lit ''a</style>b<style>c''))) =
           [''Successfully replaced style block with link.'']
   \<and> sublist start_tag (file_text (update_styles (initial (lit ''a</style>b<style>c''))))
   \<and> sublist end_tag (file_text (update_styles (initial (lit ''a</style>b<style>c''))))"
proof -
  have s: "first_occurrence start_tag (lit ''a</style>b<style>c'') 10"
    by (simp add: first_occurrence_def occurs_at_def start_tag_def lit_def upt_rec)
  have e: "first_occurrence end_tag (lit ''a</style>b<style>c'') 1"
    by (simp add: first_occurrence_def occurs_at_def end_tag_def lit_def upt_rec)
  have ord: "1 + length end_tag \<le> (10::nat)"
    by (simp add: end_tag_def lit_def)
  from s e ord end_before_start_keeps_markers [OF s e ord] show ?thesis by blast
qed

text \<open>
  C10. The transformation is defined on every text. A slice bound is always brought into
  the range of the text, whatever the index. On the success branch both indices are
  non-negative, each marker found lies inside the text, the two markers found do not
  overlap, and the two slices cut the text at the indices themselves, with no wrap-around
  and no clamping.
\<close>

theorem transformation_in_range:
  assumes s: "find_str content start_tag \<noteq> - 1" and e: "find_str content end_tag \<noteq> - 1"
  shows "(let start_index = find_str content start_tag;
              end_index = find_str content end_tag
          in 0 \<le> start_index \<and> 0 \<le> end_index
             \<and> start_index + int (length start_tag) \<le> int (length content)
             \<and> end_index + int (length end_tag) \<le> int (length content)
             \<and> (start_index + int (length start_tag) \<le> end_index
                  \<or> end_index + int (length end_tag) \<le> start_index)
             \<and> slice_to content start_index = take (nat start_index) content
             \<and> slice_from content (end_index + int (length end_tag)) =
                 drop (nat end_index + length end_tag) content
             \<and> new_content content start_index end_index =
                 take (nat start_index) content @ link_tag
                   @ drop (nat end_index + length end_tag) content)
         \<and> slice_bound (length content) a \<le> length content"
proof -
  from s find_str_lower [of content start_tag] have "0 \<le> find_str content start_tag"
    by linarith
  then obtain i where i: "find_str content start_tag = int i"
    using nonneg_int_cases by blast
  from e find_str_lower [of content end_tag] have "0 \<le> find_str content end_tag"
    by linarith
  then obtain j where j: "find_str content end_tag = int j"
    using nonneg_int_cases by blast
  from i j have os: "occurs_at start_tag content i" and oe: "occurs_at end_tag content j"
    by (simp_all add: find_str_first first_occurrence_occurs)
  from os oe have len: "i + length start_tag \<le> length content" "j + length end_tag \<le> length content"
    by (simp_all add: occurs_at_def)
  have sl: "slice_from content (int j + int (length end_tag)) = drop (j + length end_tag) content"
    using slice_from_nat [of content "j + length end_tag"] by simp
  from markers_disjoint [OF os oe] len sl show ?thesis
    unfolding i j Let_def new_content_def
    by (auto simp: slice_to_nat slice_bound_le)
qed

theorem transformation_in_range_witness:
  "find_str (lit ''<style></style>'') start_tag \<noteq> - 1
   \<and> find_str (lit ''<style></style>'') end_tag \<noteq> - 1
   \<and> (let start_index = find_str (lit ''<style></style>'') start_tag;
              end_index = find_str (lit ''<style></style>'') end_tag
          in 0 \<le> start_index \<and> 0 \<le> end_index
             \<and> start_index + int (length start_tag) \<le> int (length (lit ''<style></style>''))
             \<and> end_index + int (length end_tag) \<le> int (length (lit ''<style></style>''))
             \<and> (start_index + int (length start_tag) \<le> end_index
                  \<or> end_index + int (length end_tag) \<le> start_index)
             \<and> slice_to (lit ''<style></style>'') start_index =
                 take (nat start_index) (lit ''<style></style>'')
             \<and> slice_from (lit ''<style></style>'') (end_index + int (length end_tag)) =
                 drop (nat end_index + length end_tag) (lit ''<style></style>'')
             \<and> new_content (lit ''<style></style>'') start_index end_index =
                 take (nat start_index) (lit ''<style></style>'') @ link_tag
                   @ drop (nat end_index + length end_tag) (lit ''<style></style>''))"
proof -
  have s: "find_str (lit ''<style></style>'') start_tag \<noteq> - 1"
    by (simp add: start_tag_def lit_def)
  have e: "find_str (lit ''<style></style>'') end_tag \<noteq> - 1"
    by (simp add: end_tag_def lit_def)
  from s e transformation_in_range [OF s e] show ?thesis by blast
qed

end
